theory Spec2Isabelle
  imports Main
begin

section \<open>The transactional key-value store of myDB.py\<close>

text \<open>
  The class \<open>DB\<close> keeps two stacks of Python dictionaries: \<open>xcts\<close> (one key-to-value
  dictionary per layer) and \<open>valueCounts\<close> (one value-to-count dictionary per layer).
  Dictionaries are mutable objects that the lists and the two fields \<open>currXct\<close> and
  \<open>currValCount\<close> only refer to, and \<open>set\<close>/\<open>unset\<close> update them in place. The model
  therefore keeps every dictionary in an object store and lets the lists and the two
  fields hold addresses. A fresh dictionary (\<open>{}\<close> or \<open>d.copy()\<close>) takes the next unused
  address.

  A value stored under a key is a string, or \<open>None\<close> after \<open>unset\<close>: the type
  \<open>string option\<close>. A key that is absent from the dictionary is \<open>None\<close> of the map.
\<close>

subsection \<open>State\<close>

type_synonym addr = nat
type_synonym xct = "string \<rightharpoonup> string option"
type_synonym valCount = "string \<rightharpoonup> int"

datatype error = IndexError | KeyError | SystemExit

record db =
  xctObjs :: "addr \<Rightarrow> xct"
  countObjs :: "addr \<Rightarrow> valCount"
  xctNext :: addr
  countNext :: addr
  xcts :: "addr list"
  valueCounts :: "addr list"
  inTransac :: bool
  currXct :: addr
  currValCount :: addr
  stdout :: string

abbreviation nl :: string where
  "nl \<equiv> [CHR 0x0A]"

text \<open>\<open>sys.stdout.write(t)\<close>\<close>

definition stdout_write :: "string \<Rightarrow> db \<Rightarrow> db" where
  "stdout_write t s = s\<lparr>stdout := stdout s @ t\<rparr>"

text \<open>\<open>d[k] = v\<close> on the key-to-value dictionary at address \<open>a\<close>, and on the
  value-to-count dictionary at address \<open>a\<close>.\<close>

definition xct_store :: "addr \<Rightarrow> string \<Rightarrow> string option \<Rightarrow> db \<Rightarrow> db" where
  "xct_store a k v s = s\<lparr>xctObjs := (xctObjs s)(a := (xctObjs s a)(k \<mapsto> v))\<rparr>"

definition count_store :: "addr \<Rightarrow> string \<Rightarrow> int \<Rightarrow> db \<Rightarrow> db" where
  "count_store a k n s = s\<lparr>countObjs := (countObjs s)(a := (countObjs s a)(k \<mapsto> n))\<rparr>"

text \<open>\<open>d.copy()\<close>: a new dictionary object with the content of the one at \<open>a\<close>.\<close>

definition xct_copy :: "addr \<Rightarrow> db \<Rightarrow> addr \<times> db" where
  "xct_copy a s =
     (xctNext s, s\<lparr>xctObjs := (xctObjs s)(xctNext s := xctObjs s a), xctNext := Suc (xctNext s)\<rparr>)"

definition count_copy :: "addr \<Rightarrow> db \<Rightarrow> addr \<times> db" where
  "count_copy a s =
     (countNext s,
      s\<lparr>countObjs := (countObjs s)(countNext s := countObjs s a), countNext := Suc (countNext s)\<rparr>)"

text \<open>\<open>str(n)\<close> of a Python integer.\<close>

fun str_nat :: "nat \<Rightarrow> string" where
  "str_nat n =
     (if n < 10 then [''0123456789'' ! n] else str_nat (n div 10) @ [''0123456789'' ! (n mod 10)])"

declare str_nat.simps [simp del]

definition str_int :: "int \<Rightarrow> string" where
  "str_int i = (if i < 0 then CHR ''-'' # str_nat (nat (- i)) else str_nat (nat i))"

subsection \<open>The constructor\<close>

text \<open>\<open>__init__\<close>: the committed layer \<open>{}\<close> of each stack is object 0 of its store; the
  two dictionaries first assigned to \<open>currXct\<close> and \<open>currValCount\<close> are objects 1.\<close>

definition DB_init :: db where
  "DB_init =
     \<lparr>xctObjs = (\<lambda>_. Map.empty), countObjs = (\<lambda>_. Map.empty), xctNext = 2, countNext = 2,
      xcts = [0], valueCounts = [0], inTransac = False, currXct = 1, currValCount = 1,
      stdout = []\<rparr>"

subsection \<open>Data commands\<close>

definition set_db :: "string \<Rightarrow> string \<Rightarrow> db \<Rightarrow> db" where
  "set_db name val s =
     (let s1 =
        (case xctObjs s (currXct s) name of
           None \<Rightarrow> s
         | Some None \<Rightarrow> s
         | Some (Some oldVal) \<Rightarrow>
             (if oldVal \<noteq> val then
                (case countObjs s (currValCount s) oldVal of
                   None \<Rightarrow> s
                 | Some n \<Rightarrow> count_store (currValCount s) oldVal (n - 1) s)
              else s));
          s2 = xct_store (currXct s1) name (Some val) s1
      in (case countObjs s2 (currValCount s2) val of
            Some n \<Rightarrow> count_store (currValCount s2) val (n + 1) s2
          | None \<Rightarrow> count_store (currValCount s2) val 1 s2))"

definition get :: "string \<Rightarrow> db \<Rightarrow> db" where
  "get name s =
     (let v = (case xctObjs s (currXct s) name of None \<Rightarrow> None | Some v \<Rightarrow> v)
      in (case v of
            None \<Rightarrow> stdout_write (''NULL'' @ nl) s
          | Some str \<Rightarrow> stdout_write (str @ nl) s))"

definition unset :: "string \<Rightarrow> db \<Rightarrow> error + db" where
  "unset name s =
     (case xctObjs s (currXct s) name of
        None \<Rightarrow> Inl KeyError
      | Some oldVal \<Rightarrow>
          (let s1 = xct_store (currXct s) name None s
           in (case oldVal of
                 None \<Rightarrow> Inr s1
               | Some ov \<Rightarrow>
                   (case countObjs s1 (currValCount s1) ov of
                      None \<Rightarrow> Inl KeyError
                    | Some n \<Rightarrow> Inr (count_store (currValCount s1) ov (n - 1) s1)))))"

definition numEqualTo :: "string \<Rightarrow> db \<Rightarrow> db" where
  "numEqualTo val s =
     (case countObjs s (currValCount s) val of
        Some n \<Rightarrow> stdout_write nl (stdout_write (str_int n) s)
      | None \<Rightarrow> stdout_write nl (stdout_write (str_int 0) s))"

definition end_db :: "db \<Rightarrow> error + db" where
  "end_db s = Inl SystemExit"

subsection \<open>Transaction commands\<close>

definition begin_db :: "db \<Rightarrow> error + db" where
  "begin_db s =
     (let s1 = s\<lparr>inTransac := True\<rparr>
      in if xcts s1 = [] then Inl IndexError
         else (let (xct, s2) = xct_copy (last (xcts s1)) s1;
                   s3 = s2\<lparr>xcts := xcts s2 @ [xct]\<rparr>
               in if valueCounts s3 = [] then Inl IndexError
                  else (let (valCount, s4) = count_copy (last (valueCounts s3)) s3
                        in Inr (s4\<lparr>valueCounts := valueCounts s4 @ [valCount]\<rparr>))))"

definition rollback :: "db \<Rightarrow> error + db" where
  "rollback s =
     (if \<not> inTransac s then Inr (stdout_write (''NO TRANSACTION'' @ nl) s)
      else if xcts s = [] then Inl IndexError
      else (let s1 = s\<lparr>xcts := butlast (xcts s)\<rparr>
            in if valueCounts s1 = [] then Inl IndexError
               else (let s2 = s1\<lparr>valueCounts := butlast (valueCounts s1)\<rparr>
                     in Inr (if xcts s2 = [] then s2\<lparr>inTransac := False\<rparr> else s2))))"

definition commit :: "db \<Rightarrow> db" where
  "commit s =
     (let s1 =
        (if \<not> inTransac s then stdout_write (''NO TRANSACTION'' @ nl) s
         else (let (xct, sa) = xct_copy (currXct s) s;
                   sb = sa\<lparr>xcts := [xct]\<rparr>;
                   (valCount, sc) = count_copy (currValCount sb) sb
               in sc\<lparr>valueCounts := [valCount]\<rparr>))
      in s1\<lparr>inTransac := False\<rparr>)"

subsection \<open>The dispatcher\<close>

abbreviation "SET \<equiv> ''SET''"
abbreviation "GET \<equiv> ''GET''"
abbreviation "UNSET \<equiv> ''UNSET''"
abbreviation "NUMEQUALTO \<equiv> ''NUMEQUALTO''"
abbreviation "END \<equiv> ''END''"
abbreviation "BEGIN \<equiv> ''BEGIN''"
abbreviation "ROLLBACK \<equiv> ''ROLLBACK''"
abbreviation "COMMIT \<equiv> ''COMMIT''"

text \<open>\<open>line.strip()\<close> removes leading and trailing whitespace. The characters below are
  the six ASCII whitespace characters (space, tab, line feed, vertical tab, form feed,
  carriage return), which every Python version strips; Python 3 strips the control
  characters 0x1C to 0x1F as well, and no line used in this theory contains one.
  \<open>s.split(" ")\<close> cuts at every single space and keeps empty fields, so it never returns
  the empty list.\<close>

definition py_space :: "char \<Rightarrow> bool" where
  "py_space c \<longleftrightarrow> c \<in> set [CHR '' '', CHR 0x09, CHR 0x0A, CHR 0x0B, CHR 0x0C, CHR 0x0D]"

definition strip :: "string \<Rightarrow> string" where
  "strip l = rev (dropWhile py_space (rev (dropWhile py_space l)))"

fun split_sp :: "string \<Rightarrow> string list" where
  "split_sp [] = [[]]"
| "split_sp (c # cs) =
     (if c = CHR '' '' then [] # split_sp cs
      else (case split_sp cs of [] \<Rightarrow> [[c]] | w # ws \<Rightarrow> (c # w) # ws))"

text \<open>Lines 230 to 235 of \<open>performCommand\<close>: the current layer is the bottom of each
  stack outside a transaction and the top inside one.\<close>

definition select_current :: "db \<Rightarrow> error + db" where
  "select_current s =
     (if \<not> inTransac s then
        (if xcts s = [] then Inl IndexError
         else (let s1 = s\<lparr>currXct := xcts s ! 0\<rparr>
               in if valueCounts s1 = [] then Inl IndexError
                  else Inr (s1\<lparr>currValCount := valueCounts s1 ! 0\<rparr>)))
      else
        (if xcts s = [] then Inl IndexError
         else (let s1 = s\<lparr>currXct := last (xcts s)\<rparr>
               in if valueCounts s1 = [] then Inl IndexError
                  else Inr (s1\<lparr>currValCount := last (valueCounts s1)\<rparr>))))"

text \<open>\<open>performCommand\<close> from the list \<open>instruc\<close> on (line 228 to the end).\<close>

definition performInstruc :: "string list \<Rightarrow> db \<Rightarrow> error + db" where
  "performInstruc instruc s =
     (case instruc of
        [] \<Rightarrow> Inl IndexError
      | command # args \<Rightarrow>
          (case select_current s of
             Inl e \<Rightarrow> Inl e
           | Inr s1 \<Rightarrow>
               if command = BEGIN then begin_db s1
               else if command = ROLLBACK then rollback s1
               else if command = COMMIT then Inr (commit s1)
               else if command = SET then
                 (case args of name # val # _ \<Rightarrow> Inr (set_db name val s1) | _ \<Rightarrow> Inl IndexError)
               else if command = GET then
                 (case args of name # _ \<Rightarrow> Inr (get name s1) | _ \<Rightarrow> Inl IndexError)
               else if command = UNSET then
                 (case args of name # _ \<Rightarrow> unset name s1 | _ \<Rightarrow> Inl IndexError)
               else if command = NUMEQUALTO then
                 (case args of val # _ \<Rightarrow> Inr (numEqualTo val s1) | _ \<Rightarrow> Inl IndexError)
               else if command = END then end_db s1
               else Inr (stdout_write (''Invalid command. Try again.'' @ nl) s1)))"

definition performCommand :: "string \<Rightarrow> db \<Rightarrow> error + db" where
  "performCommand line s = performInstruc (split_sp (strip line)) s"

text \<open>The main loop: \<open>readline\<close> returns the empty string at the end of the input only, and
  an exception that \<open>performCommand\<close> raises ends the process.\<close>

fun main_loop :: "string list \<Rightarrow> db \<Rightarrow> error + db" where
  "main_loop [] s = Inr s"
| "main_loop (line # rest) s =
     (if line = [] then Inr s
      else (case performCommand line s of Inl e \<Rightarrow> Inl e | Inr s' \<Rightarrow> main_loop rest s'))"

text \<open>A sequence of already tokenised commands, each run by \<open>performCommand\<close>.\<close>

fun performAll :: "string list list \<Rightarrow> db \<Rightarrow> error + db" where
  "performAll [] s = Inr s"
| "performAll (instruc # rest) s =
     (case performInstruc instruc s of Inl e \<Rightarrow> Inl e | Inr s' \<Rightarrow> performAll rest s')"

text \<open>The states the store can be in: the constructed one, and every state a command
  returns normally from.\<close>

inductive reachable :: "db \<Rightarrow> bool" where
  init: "reachable DB_init"
| step: "reachable s \<Longrightarrow> performInstruc instruc s = Inr s' \<Longrightarrow> reachable s'"

text \<open>The objects that \<open>performCommand\<close> makes current before it runs a command, and
  their content: the dictionaries that the data commands work on.\<close>

definition cur_x :: "db \<Rightarrow> addr" where
  "cur_x s = (if inTransac s then last (xcts s) else xcts s ! 0)"

definition cur_c :: "db \<Rightarrow> addr" where
  "cur_c s = (if inTransac s then last (valueCounts s) else valueCounts s ! 0)"

definition cur_xct :: "db \<Rightarrow> xct" where
  "cur_xct s = xctObjs s (cur_x s)"

definition cur_count :: "db \<Rightarrow> valCount" where
  "cur_count s = countObjs s (cur_c s)"

subsection \<open>Well-formed stacks\<close>

text \<open>What every reachable state satisfies: the two stacks have the same length, they hold
  addresses of existing objects, no object occurs twice in a stack, outside a transaction
  a stack holds at most one layer, and every string stored in the key-to-value dictionary
  of a layer is a key of the value-to-count dictionary of the same layer.\<close>

definition cur_ix :: "db \<Rightarrow> nat" where
  "cur_ix s = (if inTransac s then length (xcts s) - 1 else 0)"

definition layers_ok :: "db \<Rightarrow> bool" where
  "layers_ok s \<longleftrightarrow>
     length (xcts s) = length (valueCounts s) \<and>
     (\<forall>a\<in>set (xcts s). a < xctNext s) \<and>
     (\<forall>a\<in>set (valueCounts s). a < countNext s) \<and>
     distinct (xcts s) \<and> distinct (valueCounts s) \<and>
     (\<not> inTransac s \<longrightarrow> length (xcts s) \<le> 1) \<and>
     (\<forall>i<length (xcts s). \<forall>k v.
        xctObjs s (xcts s ! i) k = Some (Some v) \<longrightarrow> countObjs s (valueCounts s ! i) v \<noteq> None)"

definition selected :: "db \<Rightarrow> bool" where
  "selected s \<longleftrightarrow>
     (\<exists>i<length (xcts s). currXct s = xcts s ! i \<and> currValCount s = valueCounts s ! i)"

section \<open>Properties\<close>

subsection \<open>The stacks stay well formed\<close>

lemmas prim_defs = stdout_write_def xct_store_def count_store_def xct_copy_def count_copy_def

lemmas db_defs = prim_defs
  set_db_def get_def unset_def numEqualTo_def begin_db_def rollback_def commit_def
  select_current_def performInstruc_def end_db_def

lemma select_current_Inr:
  "select_current s = Inr s1 \<Longrightarrow>
     xcts s \<noteq> [] \<and> valueCounts s \<noteq> [] \<and>
     s1 = s\<lparr>currXct := (if inTransac s then last (xcts s) else xcts s ! 0),
            currValCount := (if inTransac s then last (valueCounts s) else valueCounts s ! 0)\<rparr>"
  by (auto simp: select_current_def Let_def split: if_splits)

lemma select_current_ok:
  "xcts s \<noteq> [] \<Longrightarrow> valueCounts s \<noteq> [] \<Longrightarrow>
   select_current s =
     Inr (s\<lparr>currXct := (if inTransac s then last (xcts s) else xcts s ! 0),
            currValCount := (if inTransac s then last (valueCounts s) else valueCounts s ! 0)\<rparr>)"
  by (simp add: select_current_def Let_def)

lemma select_current_layers_ok:
  assumes "layers_ok s" "select_current s = Inr s1"
  shows "layers_ok s1 \<and> selected s1"
proof -
  from select_current_Inr [OF assms(2)]
  have ne: "xcts s \<noteq> []" "valueCounts s \<noteq> []"
    and s1: "s1 = s\<lparr>currXct := (if inTransac s then last (xcts s) else xcts s ! 0),
            currValCount := (if inTransac s then last (valueCounts s) else valueCounts s ! 0)\<rparr>"
    by simp_all
  have len: "length (xcts s) = length (valueCounts s)"
    using assms(1) by (simp add: layers_ok_def)
  have ok: "layers_ok s1"
    using assms(1) by (auto simp: s1 layers_ok_def)
  have "cur_ix s < length (xcts s1)"
    using ne by (simp add: s1 cur_ix_def)
  moreover have "currXct s1 = xcts s1 ! cur_ix s"
    using ne by (simp add: s1 cur_ix_def last_conv_nth)
  moreover have "currValCount s1 = valueCounts s1 ! cur_ix s"
    using ne len by (simp add: s1 cur_ix_def last_conv_nth)
  ultimately have "selected s1"
    unfolding selected_def by blast
  with ok show ?thesis by simp
qed

lemma DB_init_layers_ok: "layers_ok DB_init"
  by (simp add: layers_ok_def DB_init_def)

lemma stdout_write_layers_ok: "layers_ok s \<Longrightarrow> layers_ok (stdout_write t s)"
  by (auto simp: layers_ok_def stdout_write_def)

lemma get_layers_ok: "layers_ok s \<Longrightarrow> layers_ok (get name s)"
  by (simp add: get_def Let_def stdout_write_layers_ok split: option.splits)

lemma numEqualTo_layers_ok: "layers_ok s \<Longrightarrow> layers_ok (numEqualTo val s)"
  by (simp add: numEqualTo_def stdout_write_layers_ok split: option.splits)

lemma set_db_layers_ok:
  assumes "layers_ok s" "selected s"
  shows "layers_ok (set_db name val s)"
  using assms
  unfolding layers_ok_def selected_def set_db_def Let_def prim_defs
  by (auto simp: nth_eq_iff_index_eq split: option.splits if_splits)

lemma unset_Inr_fields:
  assumes "unset name s = Inr s'"
  shows "xcts s' = xcts s" "valueCounts s' = valueCounts s" "xctNext s' = xctNext s"
    "countNext s' = countNext s" "inTransac s' = inTransac s" "stdout s' = stdout s"
    "currXct s' = currXct s" "currValCount s' = currValCount s"
    "xctObjs s' = (xctObjs s)(currXct s := (xctObjs s (currXct s))(name \<mapsto> None))"
  using assms by (auto simp: unset_def Let_def prim_defs split: option.splits)

lemma unset_Inr_dom:
  assumes "unset name s = Inr s'" "countObjs s a v \<noteq> None"
  shows "countObjs s' a v \<noteq> None"
  using assms by (auto simp: unset_def Let_def prim_defs split: option.splits if_splits)

lemma unset_layers_ok:
  assumes ok: "layers_ok s" and u: "unset name s = Inr s'"
  shows "layers_ok s'"
proof -
  note f = unset_Inr_fields [OF u]
  have "xctObjs s (xcts s ! i) k = Some (Some v)"
    if "xctObjs s' (xcts s ! i) k = Some (Some v)" for i k v
    using that by (auto simp: f split: if_splits)
  then have "countObjs s' (valueCounts s ! i) v \<noteq> None"
    if "i < length (xcts s)" "xctObjs s' (xcts s ! i) k = Some (Some v)" for i k v
    using that ok unset_Inr_dom [OF u] unfolding layers_ok_def by blast
  then show ?thesis
    using ok unfolding layers_ok_def f(1-5) by blast
qed

lemma begin_db_Inr:
  assumes "begin_db s = Inr s'"
  shows "xcts s \<noteq> []" "valueCounts s \<noteq> []"
    "s' = s\<lparr>inTransac := True,
            xctObjs := (xctObjs s)(xctNext s := xctObjs s (last (xcts s))),
            xctNext := Suc (xctNext s), xcts := xcts s @ [xctNext s],
            countObjs := (countObjs s)(countNext s := countObjs s (last (valueCounts s))),
            countNext := Suc (countNext s), valueCounts := valueCounts s @ [countNext s]\<rparr>"
  using assms by (auto simp: begin_db_def Let_def prim_defs split: if_splits)

lemma layers_ok_fresh:
  assumes "layers_ok s"
  shows "xctNext s \<notin> set (xcts s)" "countNext s \<notin> set (valueCounts s)"
  using assms unfolding layers_ok_def by auto

lemma begin_db_layers_ok:
  assumes ok: "layers_ok s" and b: "begin_db s = Inr s'"
  shows "layers_ok s'"
proof -
  note f = begin_db_Inr [OF b]
  have len: "length (xcts s) = length (valueCounts s)"
    using ok by (simp add: layers_ok_def)
  have fx: "xcts s ! i \<noteq> xctNext s" if "i < length (xcts s)" for i
    using layers_ok_fresh(1) [OF ok] nth_mem [OF that] by metis
  have fc: "valueCounts s ! i \<noteq> countNext s" if "i < length (valueCounts s)" for i
    using layers_ok_fresh(2) [OF ok] nth_mem [OF that] by metis
  have lay: "countObjs s (valueCounts s ! i) v \<noteq> None"
    if "i < length (xcts s)" "xctObjs s (xcts s ! i) k = Some (Some v)" for i k v
    using ok that unfolding layers_ok_def by blast
  have lastx: "last (xcts s) = xcts s ! (length (xcts s) - 1)"
    using f(1) by (simp add: last_conv_nth)
  have lastc: "last (valueCounts s) = valueCounts s ! (length (xcts s) - 1)"
    using f(2) len by (simp add: last_conv_nth)
  have "countObjs s' (valueCounts s' ! i) v \<noteq> None"
    if i: "i < length (xcts s')" and x: "xctObjs s' (xcts s' ! i) k = Some (Some v)" for i k v
  proof (cases "i < length (xcts s)")
    case True
    then have "xctObjs s (xcts s ! i) k = Some (Some v)"
      using x fx [OF True] by (simp add: f(3) nth_append)
    from lay [OF True this] show ?thesis
      using True len fc [of i] by (simp add: f(3) nth_append)
  next
    case False
    then have i': "i = length (xcts s)"
      using i by (simp add: f(3))
    have "xctObjs s (xcts s ! (length (xcts s) - 1)) k = Some (Some v)"
      using x by (simp add: f(3) i' lastx)
    moreover have "length (xcts s) - 1 < length (xcts s)"
      using f(1) by simp
    ultimately have "countObjs s (valueCounts s ! (length (xcts s) - 1)) v \<noteq> None"
      using lay by blast
    then show ?thesis
      using len by (simp add: f(3) i' lastc)
  qed
  moreover have "length (xcts s') = length (valueCounts s')"
    using len by (simp add: f(3))
  moreover have "\<forall>a\<in>set (xcts s'). a < xctNext s'"
    using ok by (auto simp: f(3) layers_ok_def)
  moreover have "\<forall>a\<in>set (valueCounts s'). a < countNext s'"
    using ok by (auto simp: f(3) layers_ok_def)
  moreover have "distinct (xcts s')" "distinct (valueCounts s')"
    using ok layers_ok_fresh [OF ok] by (auto simp: f(3) layers_ok_def)
  moreover have "inTransac s'"
    by (simp add: f(3))
  ultimately show ?thesis
    unfolding layers_ok_def by blast
qed

lemma rollback_Inr:
  assumes "rollback s = Inr s'"
  shows "(\<not> inTransac s \<and> s' = stdout_write (''NO TRANSACTION'' @ nl) s) \<or>
         (inTransac s \<and> xcts s \<noteq> [] \<and> valueCounts s \<noteq> [] \<and>
          s' = s\<lparr>xcts := butlast (xcts s), valueCounts := butlast (valueCounts s),
                 inTransac := (butlast (xcts s) \<noteq> [])\<rparr>)"
  using assms by (auto simp: rollback_def Let_def split: if_splits)

lemma rollback_layers_ok:
  assumes ok: "layers_ok s" and r: "rollback s = Inr s'"
  shows "layers_ok s'"
proof -
  from rollback_Inr [OF r] show ?thesis
  proof (elim disjE conjE)
    assume "s' = stdout_write (''NO TRANSACTION'' @ nl) s"
    then show ?thesis using ok by (simp add: stdout_write_layers_ok)
  next
    assume ne: "xcts s \<noteq> []" "valueCounts s \<noteq> []"
      and s': "s' = s\<lparr>xcts := butlast (xcts s), valueCounts := butlast (valueCounts s),
                 inTransac := (butlast (xcts s) \<noteq> [])\<rparr>"
    have len: "length (xcts s) = length (valueCounts s)"
      using ok by (simp add: layers_ok_def)
    have "length (xcts s') = length (valueCounts s')"
      using len by (simp add: s')
    moreover have "\<forall>a\<in>set (xcts s'). a < xctNext s'"
      using ok by (auto simp: s' layers_ok_def dest: in_set_butlastD)
    moreover have "\<forall>a\<in>set (valueCounts s'). a < countNext s'"
      using ok by (auto simp: s' layers_ok_def dest: in_set_butlastD)
    moreover have "distinct (xcts s')" "distinct (valueCounts s')"
      using ok by (auto simp: s' layers_ok_def distinct_butlast)
    moreover have "\<not> inTransac s' \<longrightarrow> length (xcts s') \<le> 1"
      by (simp add: s')
    moreover have "countObjs s' (valueCounts s' ! i) v \<noteq> None"
      if "i < length (xcts s')" "xctObjs s' (xcts s' ! i) k = Some (Some v)" for i k v
    proof -
      have i: "i < length (xcts s) - 1" using that(1) by (simp add: s')
      then have "xctObjs s (xcts s ! i) k = Some (Some v)"
        using that(2) by (simp add: s' nth_butlast)
      moreover have "i < length (xcts s)" using i by simp
      ultimately have "countObjs s (valueCounts s ! i) v \<noteq> None"
        using ok unfolding layers_ok_def by blast
      then show ?thesis using i len by (simp add: s' nth_butlast)
    qed
    ultimately show ?thesis
      unfolding layers_ok_def by blast
  qed
qed

lemma commit_layers_ok:
  assumes "layers_ok s" "selected s"
  shows "layers_ok (commit s)"
  using assms
  unfolding layers_ok_def selected_def commit_def Let_def prim_defs
  by (auto split: if_splits)

lemma performInstruc_layers_ok:
  assumes ok: "layers_ok s" and p: "performInstruc instruc s = Inr s'"
  shows "layers_ok s'"
proof -
  from p obtain command args s1 where i: "instruc = command # args"
    and sel: "select_current s = Inr s1"
    by (auto simp: performInstruc_def split: list.splits sum.splits)
  from select_current_layers_ok [OF ok sel] have ok1: "layers_ok s1" and sl: "selected s1"
    by simp_all
  show ?thesis
    using p ok1 sl
    by (auto simp: performInstruc_def i sel end_db_def
        intro: begin_db_layers_ok rollback_layers_ok commit_layers_ok set_db_layers_ok
          get_layers_ok unset_layers_ok numEqualTo_layers_ok stdout_write_layers_ok
        split: if_splits list.splits)
qed

lemma reachable_layers_ok: "reachable s \<Longrightarrow> layers_ok s"
  by (induction rule: reachable.induct) (auto intro: DB_init_layers_ok performInstruc_layers_ok)

text \<open>The states of the main loop are reachable states.\<close>

lemma main_loop_reachable:
  "reachable s \<Longrightarrow> main_loop ls s = Inr s' \<Longrightarrow> reachable s'"
proof (induction ls arbitrary: s)
  case Nil
  then show ?case by simp
next
  case (Cons line ls)
  show ?case
  proof (cases "line = []")
    case True
    then show ?thesis using Cons.prems by simp
  next
    case False
    then obtain u where u: "performCommand line s = Inr u" "main_loop ls u = Inr s'"
      using Cons.prems(2) by (auto split: sum.splits)
    have "reachable u"
      using Cons.prems(1) u(1) unfolding performCommand_def by (rule reachable.step)
    then show ?thesis using u(2) by (rule Cons.IH)
  qed
qed

subsection \<open>What each command does\<close>

lemma select_current_cur:
  "xcts s \<noteq> [] \<Longrightarrow> valueCounts s \<noteq> [] \<Longrightarrow>
   select_current s = Inr (s\<lparr>currXct := cur_x s, currValCount := cur_c s\<rparr>)"
  by (simp add: select_current_ok cur_x_def cur_c_def)

lemma perform_BEGIN:
  assumes "xcts s \<noteq> []" "valueCounts s \<noteq> []"
  obtains s' where "performInstruc [BEGIN] s = Inr s'" "inTransac s'"
    "xcts s' = xcts s @ [xctNext s]" "valueCounts s' = valueCounts s @ [countNext s]"
    "xctObjs s' = (xctObjs s)(xctNext s := xctObjs s (last (xcts s)))"
    "countObjs s' = (countObjs s)(countNext s := countObjs s (last (valueCounts s)))"
    "xctNext s' = Suc (xctNext s)" "countNext s' = Suc (countNext s)" "stdout s' = stdout s"
  using assms
  by (simp add: performInstruc_def select_current_cur begin_db_def Let_def xct_copy_def count_copy_def)

lemma set_db_frame:
  "xcts (set_db k v s) = xcts s" "valueCounts (set_db k v s) = valueCounts s"
  "inTransac (set_db k v s) = inTransac s" "xctNext (set_db k v s) = xctNext s"
  "countNext (set_db k v s) = countNext s" "stdout (set_db k v s) = stdout s"
  "currXct (set_db k v s) = currXct s" "currValCount (set_db k v s) = currValCount s"
  "xctObjs (set_db k v s) = (xctObjs s)(currXct s := (xctObjs s (currXct s))(k \<mapsto> Some v))"
  "a \<noteq> currValCount s \<Longrightarrow> countObjs (set_db k v s) a = countObjs s a"
  by (simp_all add: set_db_def Let_def xct_store_def count_store_def split: option.splits)

lemma perform_SET:
  assumes "xcts s \<noteq> []" "valueCounts s \<noteq> []"
  obtains s' where "performInstruc [SET, k, v] s = Inr s'" "inTransac s' = inTransac s"
    "xcts s' = xcts s" "valueCounts s' = valueCounts s"
    "xctNext s' = xctNext s" "countNext s' = countNext s" "stdout s' = stdout s"
    "xctObjs s' = (xctObjs s)(cur_x s := (xctObjs s (cur_x s))(k \<mapsto> Some v))"
    "\<And>a. a \<noteq> cur_c s \<Longrightarrow> countObjs s' a = countObjs s a"
  using assms
  by (simp add: performInstruc_def select_current_cur set_db_frame)

lemma perform_ROLLBACK_in:
  assumes "inTransac s" "xcts s \<noteq> []" "valueCounts s \<noteq> []"
  obtains s' where "performInstruc [ROLLBACK] s = Inr s'"
    "inTransac s' = (butlast (xcts s) \<noteq> [])"
    "xcts s' = butlast (xcts s)" "valueCounts s' = butlast (valueCounts s)"
    "xctObjs s' = xctObjs s" "countObjs s' = countObjs s"
    "xctNext s' = xctNext s" "countNext s' = countNext s" "stdout s' = stdout s"
  using assms
  by (simp add: performInstruc_def select_current_cur rollback_def Let_def)

lemma perform_ROLLBACK_out:
  assumes "\<not> inTransac s" "xcts s \<noteq> []" "valueCounts s \<noteq> []"
  obtains s' where "performInstruc [ROLLBACK] s = Inr s'"
    "inTransac s' = inTransac s" "xcts s' = xcts s" "valueCounts s' = valueCounts s"
    "xctObjs s' = xctObjs s" "countObjs s' = countObjs s"
    "xctNext s' = xctNext s" "countNext s' = countNext s"
    "stdout s' = stdout s @ ''NO TRANSACTION'' @ nl"
  using assms
  by (simp add: performInstruc_def select_current_cur rollback_def stdout_write_def)

lemma perform_COMMIT_in:
  assumes "inTransac s" "xcts s \<noteq> []" "valueCounts s \<noteq> []"
  obtains s' where "performInstruc [COMMIT] s = Inr s'" "\<not> inTransac s'"
    "xcts s' = [xctNext s]" "valueCounts s' = [countNext s]"
    "xctObjs s' = (xctObjs s)(xctNext s := xctObjs s (last (xcts s)))"
    "countObjs s' = (countObjs s)(countNext s := countObjs s (last (valueCounts s)))"
    "xctNext s' = Suc (xctNext s)" "countNext s' = Suc (countNext s)" "stdout s' = stdout s"
  using assms
  by (simp add: performInstruc_def select_current_cur commit_def Let_def xct_copy_def
      count_copy_def cur_x_def cur_c_def)

lemma perform_COMMIT_out:
  assumes "\<not> inTransac s" "xcts s \<noteq> []" "valueCounts s \<noteq> []"
  obtains s' where "performInstruc [COMMIT] s = Inr s'"
    "inTransac s' = inTransac s" "xcts s' = xcts s" "valueCounts s' = valueCounts s"
    "xctObjs s' = xctObjs s" "countObjs s' = countObjs s"
    "xctNext s' = xctNext s" "countNext s' = countNext s"
    "stdout s' = stdout s @ ''NO TRANSACTION'' @ nl"
  using assms
  by (simp add: performInstruc_def select_current_cur commit_def stdout_write_def)

lemma perform_GET:
  assumes "xcts s \<noteq> []" "valueCounts s \<noteq> []"
  obtains s' where "performInstruc [GET, k] s = Inr s'"
    "inTransac s' = inTransac s" "xcts s' = xcts s" "valueCounts s' = valueCounts s"
    "xctObjs s' = xctObjs s" "countObjs s' = countObjs s"
    "xctNext s' = xctNext s" "countNext s' = countNext s"
    "stdout s' =
       stdout s @ (case xctObjs s (cur_x s) k of Some (Some v) \<Rightarrow> v | _ \<Rightarrow> ''NULL'') @ nl"
  using assms
  by (simp add: performInstruc_def select_current_cur get_def Let_def stdout_write_def
      split: option.splits)

lemma cur_xct_eq: "cur_xct s = xctObjs s (cur_x s)" "cur_count s = countObjs s (cur_c s)"
  by (simp_all add: cur_xct_def cur_count_def)

subsection \<open>Rollback\<close>

lemma performInstruc_Inr_nonempty:
  assumes "performInstruc instruc s = Inr s'"
  shows "xcts s \<noteq> []" "valueCounts s \<noteq> []"
  using assms select_current_Inr [of s]
  by (auto simp: performInstruc_def split: list.splits sum.splits)

lemma layers_ok_last:
  assumes "layers_ok s" "xcts s \<noteq> []"
  shows "valueCounts s \<noteq> []" "last (xcts s) \<noteq> xctNext s" "last (valueCounts s) \<noteq> countNext s"
    "cur_x s = last (xcts s)" "cur_c s = last (valueCounts s)"
proof -
  have len: "length (xcts s) = length (valueCounts s)"
    using assms(1) by (simp add: layers_ok_def)
  show ne: "valueCounts s \<noteq> []" using len assms(2) by auto
  show "last (xcts s) \<noteq> xctNext s"
    using layers_ok_fresh(1) [OF assms(1)] last_in_set [OF assms(2)] by metis
  show "last (valueCounts s) \<noteq> countNext s"
    using layers_ok_fresh(2) [OF assms(1)] last_in_set [OF ne] by metis
  have le: "\<not> inTransac s \<Longrightarrow> length (xcts s) \<le> 1"
    using assms(1) by (simp add: layers_ok_def)
  show "cur_x s = last (xcts s)"
    using le assms(2) by (cases "xcts s") (auto simp: cur_x_def)
  show "cur_c s = last (valueCounts s)"
    using le len ne by (cases "valueCounts s") (auto simp: cur_c_def)
qed

lemma begin_set_rollback_get:
  assumes ok: "layers_ok s" and ne: "xcts s \<noteq> []"
  shows "\<exists>s'. performAll [[BEGIN], [SET, k, v2], [ROLLBACK], [GET, k]] s = Inr s' \<and>
     stdout s' = stdout s @ (case cur_xct s k of Some (Some v) \<Rightarrow> v | _ \<Rightarrow> ''NULL'') @ nl"
proof -
  note l = layers_ok_last [OF ok ne]
  obtain s1 where s1: "performInstruc [BEGIN] s = Inr s1" "inTransac s1"
    "xcts s1 = xcts s @ [xctNext s]" "valueCounts s1 = valueCounts s @ [countNext s]"
    "xctObjs s1 = (xctObjs s)(xctNext s := xctObjs s (last (xcts s)))"
    "stdout s1 = stdout s"
    using perform_BEGIN [OF ne l(1)] by metis
  have ne1: "xcts s1 \<noteq> []" "valueCounts s1 \<noteq> []"
    by (simp_all add: s1)
  have c1: "cur_x s1 = xctNext s"
    by (simp add: cur_x_def s1)
  obtain s2 where s2: "performInstruc [SET, k, v2] s1 = Inr s2" "inTransac s2 = inTransac s1"
    "xcts s2 = xcts s1" "valueCounts s2 = valueCounts s1" "stdout s2 = stdout s1"
    "xctObjs s2 = (xctObjs s1)(cur_x s1 := (xctObjs s1 (cur_x s1))(k \<mapsto> Some v2))"
    using perform_SET [OF ne1] by metis
  have ne2: "inTransac s2" "xcts s2 \<noteq> []" "valueCounts s2 \<noteq> []"
    by (simp_all add: s1 s2)
  obtain s3 where s3: "performInstruc [ROLLBACK] s2 = Inr s3"
    "inTransac s3 = (butlast (xcts s2) \<noteq> [])"
    "xcts s3 = butlast (xcts s2)" "valueCounts s3 = butlast (valueCounts s2)"
    "xctObjs s3 = xctObjs s2" "stdout s3 = stdout s2"
    using perform_ROLLBACK_in [OF ne2] by metis
  have ne3: "xcts s3 \<noteq> []" "valueCounts s3 \<noteq> []"
    using ne l(1) by (simp_all add: s1 s2 s3)
  obtain s4 where s4: "performInstruc [GET, k] s3 = Inr s4"
    "stdout s4 =
       stdout s3 @ (case xctObjs s3 (cur_x s3) k of Some (Some v) \<Rightarrow> v | _ \<Rightarrow> ''NULL'') @ nl"
    using perform_GET [OF ne3] by metis
  have "cur_x s3 = last (xcts s)"
    using ne by (simp add: cur_x_def s1 s2 s3)
  then have "xctObjs s3 (cur_x s3) = xctObjs s (cur_x s)"
    using l(2) by (simp add: s3 s2 c1 s1 l(4))
  then have "stdout s4 =
      stdout s @ (case cur_xct s k of Some (Some v) \<Rightarrow> v | _ \<Rightarrow> ''NULL'') @ nl"
    by (simp add: s4 s3 s2 s1 cur_xct_eq)
  moreover have "performAll [[BEGIN], [SET, k, v2], [ROLLBACK], [GET, k]] s = Inr s4"
    by (simp add: s1(1) s2(1) s3(1) s4(1))
  ultimately show ?thesis by blast
qed

text \<open>
  Claim C5. For every key \<open>k\<close> and all values \<open>v1\<close>, \<open>v2\<close>: in every reachable state in
  which \<open>SET k v1\<close> has just been run, the commands \<open>BEGIN; SET k v2; ROLLBACK; GET k\<close> all
  return normally and \<open>GET k\<close> writes \<open>v1\<close> and a line feed.
\<close>

theorem rollback_restores_binding:
  assumes "reachable s" and "performInstruc [SET, k, v1] s = Inr s1"
  shows "\<exists>s'. performAll [[BEGIN], [SET, k, v2], [ROLLBACK], [GET, k]] s1 = Inr s' \<and>
     stdout s' = stdout s1 @ v1 @ nl"
proof -
  note ne = performInstruc_Inr_nonempty [OF assms(2)]
  have "reachable s1"
    using assms by (rule reachable.step)
  then have ok1: "layers_ok s1"
    by (rule reachable_layers_ok)
  obtain t where t: "performInstruc [SET, k, v1] s = Inr t" "inTransac t = inTransac s"
    "xcts t = xcts s" 
    "xctObjs t = (xctObjs s)(cur_x s := (xctObjs s (cur_x s))(k \<mapsto> Some v1))"
    using perform_SET [OF ne] by metis
  have eq: "t = s1" using t(1) assms(2) by simp
  have ne1: "xcts s1 \<noteq> []" using ne t(3) eq by simp
  have "cur_x s1 = cur_x s"
    using t(2,3) eq by (simp add: cur_x_def)
  then have "cur_xct s1 k = Some (Some v1)"
    using t(4) eq by (simp add: cur_xct_eq)
  with begin_set_rollback_get [OF ok1 ne1, of k v2] show ?thesis
    by simp
qed

theorem rollback_restores_binding_witness:
  "\<exists>s1 s'. performInstruc [SET, ''a'', ''10''] DB_init = Inr s1 \<and>
     performAll [[BEGIN], [SET, ''a'', ''20''], [ROLLBACK], [GET, ''a'']] s1 = Inr s' \<and>
     stdout s' = ''10'' @ nl"
proof -
  obtain s1 where s1: "performInstruc [SET, ''a'', ''10''] DB_init = Inr s1"
    and out: "stdout s1 = stdout DB_init"
    using perform_SET [of DB_init "''a''" "''10''"] by (auto simp: DB_init_def)
  from rollback_restores_binding [OF reachable.init s1, of "''20''"] s1 out
  show ?thesis by (auto simp: DB_init_def)
qed

subsection \<open>Copy on push\<close>

lemma perform_UNSET_eq:
  assumes "xcts s \<noteq> []" "valueCounts s \<noteq> []"
  shows "performInstruc [UNSET, k] s = unset k (s\<lparr>currXct := cur_x s, currValCount := cur_c s\<rparr>)"
  using assms by (simp add: performInstruc_def select_current_cur)

lemma unset_Inr_count_frame:
  assumes "unset name s = Inr s'" "a \<noteq> currValCount s"
  shows "countObjs s' a = countObjs s a"
  using assms by (auto simp: unset_def Let_def prim_defs split: option.splits)

lemma set_unset_step_frame:
  assumes p: "performInstruc c t = Inr t'"
    and c: "(\<exists>k v. c = [SET, k, v]) \<or> (\<exists>k. c = [UNSET, k])"
  shows "inTransac t' = inTransac t" "xcts t' = xcts t" "valueCounts t' = valueCounts t"
    "a \<noteq> cur_x t \<Longrightarrow> xctObjs t' a = xctObjs t a"
    "b \<noteq> cur_c t \<Longrightarrow> countObjs t' b = countObjs t b"
proof -
  note ne = performInstruc_Inr_nonempty [OF p]
  from c have "inTransac t' = inTransac t \<and> xcts t' = xcts t \<and> valueCounts t' = valueCounts t \<and>
    (a \<noteq> cur_x t \<longrightarrow> xctObjs t' a = xctObjs t a) \<and>
    (b \<noteq> cur_c t \<longrightarrow> countObjs t' b = countObjs t b)"
  proof (elim disjE exE)
    fix k v assume c: "c = [SET, k, v]"
    obtain u where u: "performInstruc [SET, k, v] t = Inr u" "inTransac u = inTransac t"
      "xcts u = xcts t" "valueCounts u = valueCounts t"
      "xctObjs u = (xctObjs t)(cur_x t := (xctObjs t (cur_x t))(k \<mapsto> Some v))"
      "\<And>a. a \<noteq> cur_c t \<Longrightarrow> countObjs u a = countObjs t a"
      using perform_SET [OF ne] by metis
    have "u = t'" using u(1) p c by simp
    then show ?thesis using u by auto
  next
    fix k assume c: "c = [UNSET, k]"
    let ?t = "t\<lparr>currXct := cur_x t, currValCount := cur_c t\<rparr>"
    have u: "unset k ?t = Inr t'"
      using p c perform_UNSET_eq [OF ne] by simp
    show ?thesis
      using unset_Inr_fields [OF u] unset_Inr_count_frame [OF u, of b] by auto
  qed
  then show "inTransac t' = inTransac t" "xcts t' = xcts t" "valueCounts t' = valueCounts t"
    "a \<noteq> cur_x t \<Longrightarrow> xctObjs t' a = xctObjs t a"
    "b \<noteq> cur_c t \<Longrightarrow> countObjs t' b = countObjs t b"
    by simp_all
qed

lemma set_unset_all_frame:
  assumes "inTransac t"
    and "\<forall>c\<in>set cmds. (\<exists>k v. c = [SET, k, v]) \<or> (\<exists>k. c = [UNSET, k])"
    and "performAll cmds t = Inr t'"
  shows "inTransac t' \<and> xcts t' = xcts t \<and> valueCounts t' = valueCounts t \<and>
    (\<forall>a. a \<noteq> last (xcts t) \<longrightarrow> xctObjs t' a = xctObjs t a) \<and>
    (\<forall>b. b \<noteq> last (valueCounts t) \<longrightarrow> countObjs t' b = countObjs t b)"
  using assms
proof (induction cmds arbitrary: t)
  case Nil
  then show ?case by simp
next
  case (Cons c cmds)
  from Cons.prems(3) obtain u where u: "performInstruc c t = Inr u" "performAll cmds u = Inr t'"
    by (auto split: sum.splits)
  have c: "(\<exists>k v. c = [SET, k, v]) \<or> (\<exists>k. c = [UNSET, k])"
    using Cons.prems(2) by simp
  note f = set_unset_step_frame [OF u(1) c]
  have cx: "cur_x t = last (xcts t)" "cur_c t = last (valueCounts t)"
    using Cons.prems(1) by (simp_all add: cur_x_def cur_c_def)
  have "inTransac u" using f(1) Cons.prems(1) by simp
  from Cons.IH [OF this _ u(2)] Cons.prems(2)
  have "inTransac t' \<and> xcts t' = xcts u \<and> valueCounts t' = valueCounts u \<and>
    (\<forall>a. a \<noteq> last (xcts u) \<longrightarrow> xctObjs t' a = xctObjs u a) \<and>
    (\<forall>b. b \<noteq> last (valueCounts u) \<longrightarrow> countObjs t' b = countObjs u b)"
    by simp
  then show ?case
    using f(2,3) f(4) [unfolded cx] f(5) [unfolded cx] by simp
qed

text \<open>
  Claim C7. In every reachable state with at least one layer, \<open>BEGIN\<close> pushes a new object
  on each stack, and whatever sequence of \<open>SET\<close> and \<open>UNSET\<close> commands runs afterwards,
  the stacks still hold the old layers below the new one and the key-to-value dictionary
  and the value-to-count dictionary of every old layer have the content they had before
  \<open>BEGIN\<close>.
\<close>

theorem begin_copy_on_push:
  assumes r: "reachable s" and b: "performInstruc [BEGIN] s = Inr s1"
    and c: "\<forall>c\<in>set cmds. (\<exists>k v. c = [SET, k, v]) \<or> (\<exists>k. c = [UNSET, k])"
    and p: "performAll cmds s1 = Inr s2"
  shows "xcts s2 = xcts s @ [xctNext s] \<and> valueCounts s2 = valueCounts s @ [countNext s] \<and>
    (\<forall>a\<in>set (xcts s). xctObjs s2 a = xctObjs s a) \<and>
    (\<forall>a\<in>set (valueCounts s). countObjs s2 a = countObjs s a)"
proof -
  note ne = performInstruc_Inr_nonempty [OF b]
  note ok = reachable_layers_ok [OF r]
  obtain t where t: "performInstruc [BEGIN] s = Inr t" "inTransac t"
    "xcts t = xcts s @ [xctNext s]" "valueCounts t = valueCounts s @ [countNext s]"
    "xctObjs t = (xctObjs s)(xctNext s := xctObjs s (last (xcts s)))"
    "countObjs t = (countObjs s)(countNext s := countObjs s (last (valueCounts s)))"
    using perform_BEGIN [OF ne] by metis
  have eq: "t = s1" using t(1) b by simp
  from set_unset_all_frame [OF _ c p] t(2-4) eq
  have f: "xcts s2 = xcts s @ [xctNext s]" "valueCounts s2 = valueCounts s @ [countNext s]"
    "\<And>a. a \<noteq> xctNext s \<Longrightarrow> xctObjs s2 a = xctObjs s1 a"
    "\<And>b. b \<noteq> countNext s \<Longrightarrow> countObjs s2 b = countObjs s1 b"
    by auto
  have "xctObjs s2 a = xctObjs s a" if "a \<in> set (xcts s)" for a
  proof -
    have "a \<noteq> xctNext s" using that layers_ok_fresh(1) [OF ok] by auto
    then show ?thesis using f(3) [of a] t(5) eq by simp
  qed
  moreover have "countObjs s2 a = countObjs s a" if "a \<in> set (valueCounts s)" for a
  proof -
    have "a \<noteq> countNext s" using that layers_ok_fresh(2) [OF ok] by auto
    then show ?thesis using f(4) [of a] t(6) eq by simp
  qed
  ultimately show ?thesis using f(1,2) by blast
qed

theorem begin_copy_on_push_witness:
  "\<exists>s1 s2. performInstruc [BEGIN] DB_init = Inr s1 \<and>
     performAll [[SET, ''a'', ''10''], [UNSET, ''a''], [SET, ''b'', ''20'']] s1 = Inr s2 \<and>
     xcts s2 = [0, 2] \<and> valueCounts s2 = [0, 2] \<and>
     xctObjs s2 0 = Map.empty \<and> countObjs s2 0 = Map.empty \<and>
     xctObjs s2 2 ''b'' = Some (Some ''20'') \<and> countObjs s2 2 ''10'' = Some 0"
proof -
  have e: "\<exists>s1 s2. performInstruc [BEGIN] DB_init = Inr s1 \<and>
     performAll [[SET, ''a'', ''10''], [UNSET, ''a''], [SET, ''b'', ''20'']] s1 = Inr s2 \<and>
     xctObjs s2 2 ''b'' = Some (Some ''20'') \<and> countObjs s2 2 ''10'' = Some 0"
    by (simp add: db_defs DB_init_def Let_def)
  then obtain s1 s2 where s: "performInstruc [BEGIN] DB_init = Inr s1"
    "performAll [[SET, ''a'', ''10''], [UNSET, ''a''], [SET, ''b'', ''20'']] s1 = Inr s2"
    "xctObjs s2 2 ''b'' = Some (Some ''20'')" "countObjs s2 2 ''10'' = Some 0"
    by blast
  from begin_copy_on_push [OF reachable.init s(1) _ s(2)] s
  show ?thesis by (auto simp: DB_init_def)
qed

subsection \<open>Commit\<close>

text \<open>
  Claim C6. From any state whose stacks hold at least one layer (the state of a store with
  no open transaction is one), the commands
  \<open>BEGIN; SET a 10; BEGIN; SET a 20; COMMIT; GET a\<close> all return normally, \<open>GET a\<close> writes
  \<open>20\<close>, each stack is left with exactly one layer, which maps \<open>a\<close> to \<open>20\<close>, the store is
  outside a transaction, and a \<open>ROLLBACK\<close> run next writes \<open>NO TRANSACTION\<close> and changes
  neither the stacks nor the dictionaries.
\<close>

theorem commit_flattens:
  assumes ne: "xcts s \<noteq> []" "valueCounts s \<noteq> []"
  shows "\<exists>s'. performAll [[BEGIN], [SET, ''a'', ''10''], [BEGIN], [SET, ''a'', ''20''],
                           [COMMIT], [GET, ''a'']] s = Inr s' \<and>
     stdout s' = stdout s @ ''20'' @ nl \<and>
     length (xcts s') = 1 \<and> length (valueCounts s') = 1 \<and> \<not> inTransac s' \<and>
     cur_xct s' ''a'' = Some (Some ''20'') \<and>
     (\<exists>s''. performInstruc [ROLLBACK] s' = Inr s'' \<and>
        stdout s'' = stdout s' @ ''NO TRANSACTION'' @ nl \<and>
        xcts s'' = xcts s' \<and> valueCounts s'' = valueCounts s' \<and> \<not> inTransac s'' \<and>
        xctObjs s'' = xctObjs s' \<and> countObjs s'' = countObjs s')"
proof -
  obtain s1 where s1: "performInstruc [BEGIN] s = Inr s1" "inTransac s1"
    "xcts s1 = xcts s @ [xctNext s]" "valueCounts s1 = valueCounts s @ [countNext s]"
    "stdout s1 = stdout s"
    using perform_BEGIN [OF ne] by metis
  have ne1: "xcts s1 \<noteq> []" "valueCounts s1 \<noteq> []"
    by (simp_all add: s1)
  obtain s2 where s2: "performInstruc [SET, ''a'', ''10''] s1 = Inr s2"
    "inTransac s2 = inTransac s1" "xcts s2 = xcts s1" "valueCounts s2 = valueCounts s1"
    "stdout s2 = stdout s1"
    using perform_SET [OF ne1] by metis
  have ne2: "xcts s2 \<noteq> []" "valueCounts s2 \<noteq> []"
    by (simp_all add: s1 s2)
  obtain s3 where s3: "performInstruc [BEGIN] s2 = Inr s3" "inTransac s3"
    "xcts s3 = xcts s2 @ [xctNext s2]" "valueCounts s3 = valueCounts s2 @ [countNext s2]"
    "stdout s3 = stdout s2"
    using perform_BEGIN [OF ne2] by metis
  have ne3: "xcts s3 \<noteq> []" "valueCounts s3 \<noteq> []"
    by (simp_all add: s3)
  obtain s4 where s4: "performInstruc [SET, ''a'', ''20''] s3 = Inr s4"
    "inTransac s4 = inTransac s3" "xcts s4 = xcts s3" "valueCounts s4 = valueCounts s3"
    "stdout s4 = stdout s3"
    "xctObjs s4 = (xctObjs s3)(cur_x s3 := (xctObjs s3 (cur_x s3))(''a'' \<mapsto> Some ''20''))"
    using perform_SET [OF ne3] by metis
  have ne4: "inTransac s4" "xcts s4 \<noteq> []" "valueCounts s4 \<noteq> []"
    by (simp_all add: s3 s4)
  have c4: "last (xcts s4) = cur_x s3"
    using s3(2) by (simp add: s4 cur_x_def)
  obtain s5 where s5: "performInstruc [COMMIT] s4 = Inr s5" "\<not> inTransac s5"
    "xcts s5 = [xctNext s4]" "valueCounts s5 = [countNext s4]"
    "xctObjs s5 = (xctObjs s4)(xctNext s4 := xctObjs s4 (last (xcts s4)))"
    "stdout s5 = stdout s4"
    using perform_COMMIT_in [OF ne4] by metis
  have ne5: "xcts s5 \<noteq> []" "valueCounts s5 \<noteq> []"
    by (simp_all add: s5)
  have "cur_x s5 = xctNext s4"
    using s5(2) by (simp add: cur_x_def s5(3))
  then have v5: "xctObjs s5 (cur_x s5) ''a'' = Some (Some ''20'')"
    by (simp add: s5(5) c4 s4(6))
  obtain s6 where s6: "performInstruc [GET, ''a''] s5 = Inr s6"
    "inTransac s6 = inTransac s5" "xcts s6 = xcts s5" "valueCounts s6 = valueCounts s5"
    "xctObjs s6 = xctObjs s5"
    "stdout s6 =
       stdout s5 @ (case xctObjs s5 (cur_x s5) ''a'' of Some (Some v) \<Rightarrow> v | _ \<Rightarrow> ''NULL'') @ nl"
    using perform_GET [OF ne5] by metis
  have ne6: "\<not> inTransac s6" "xcts s6 \<noteq> []" "valueCounts s6 \<noteq> []"
    by (simp_all add: s5 s6)
  obtain s7 where s7: "performInstruc [ROLLBACK] s6 = Inr s7"
    "inTransac s7 = inTransac s6" "xcts s7 = xcts s6" "valueCounts s7 = valueCounts s6"
    "xctObjs s7 = xctObjs s6" "countObjs s7 = countObjs s6"
    "stdout s7 = stdout s6 @ ''NO TRANSACTION'' @ nl"
    using perform_ROLLBACK_out [OF ne6] by metis
  have run: "performAll [[BEGIN], [SET, ''a'', ''10''], [BEGIN], [SET, ''a'', ''20''],
                           [COMMIT], [GET, ''a'']] s = Inr s6"
    by (simp add: s1(1) s2(1) s3(1) s4(1) s5(1) s6(1))
  have "stdout s6 = stdout s5 @ ''20'' @ nl"
    using s6(6) v5 by simp
  then have out: "stdout s6 = stdout s @ ''20'' @ nl"
    by (simp add: s5(6) s4(5) s3(5) s2(5) s1(5))
  have "cur_x s6 = cur_x s5"
    by (simp add: cur_x_def s6(2,3))
  then have cur: "cur_xct s6 ''a'' = Some (Some ''20'')"
    using v5 by (simp add: cur_xct_def s6(5))
  have len: "length (xcts s6) = 1" "length (valueCounts s6) = 1"
    by (simp_all add: s6 s5)
  have rb: "\<exists>s''. performInstruc [ROLLBACK] s6 = Inr s'' \<and>
        stdout s'' = stdout s6 @ ''NO TRANSACTION'' @ nl \<and>
        xcts s'' = xcts s6 \<and> valueCounts s'' = valueCounts s6 \<and> \<not> inTransac s'' \<and>
        xctObjs s'' = xctObjs s6 \<and> countObjs s'' = countObjs s6"
    using s7 ne6(1) by auto
  show ?thesis
    using run out cur len ne6(1) rb by blast
qed

theorem commit_flattens_witness:
  "\<exists>s'. performAll [[BEGIN], [SET, ''a'', ''10''], [BEGIN], [SET, ''a'', ''20''],
                           [COMMIT], [GET, ''a'']] DB_init = Inr s' \<and>
     stdout s' = ''20'' @ nl \<and> length (xcts s') = 1 \<and> \<not> inTransac s' \<and>
     (\<exists>s''. performInstruc [ROLLBACK] s' = Inr s'' \<and>
        stdout s'' = ''20'' @ nl @ ''NO TRANSACTION'' @ nl)"
proof -
  have "xcts DB_init \<noteq> []" "valueCounts DB_init \<noteq> []"
    by (simp_all add: DB_init_def)
  from commit_flattens [OF this] show ?thesis
    by (auto simp: DB_init_def)
qed

subsection \<open>Unset\<close>

lemma unset_None:
  "xctObjs s (currXct s) k = None \<Longrightarrow> unset k s = Inl KeyError"
  by (simp add: unset_def)

lemma unset_Some_None:
  "xctObjs s (currXct s) k = Some None \<Longrightarrow> unset k s = Inr (xct_store (currXct s) k None s)"
  by (simp add: unset_def)

lemma unset_Some_Some:
  "xctObjs s (currXct s) k = Some (Some v) \<Longrightarrow> countObjs s (currValCount s) v = Some n \<Longrightarrow>
   unset k s = Inr (count_store (currValCount s) v (n - 1) (xct_store (currXct s) k None s))"
  by (simp add: unset_def xct_store_def)

lemma layers_ok_cur:
  assumes ok: "layers_ok s" and ne: "xcts s \<noteq> []" and v: "cur_xct s k = Some (Some v)"
  shows "\<exists>n. cur_count s v = Some n"
proof -
  note l = layers_ok_last [OF ok ne]
  have len: "length (xcts s) = length (valueCounts s)"
    using ok by (simp add: layers_ok_def)
  let ?i = "length (xcts s) - 1"
  have i: "?i < length (xcts s)" using ne by simp
  have "cur_x s = xcts s ! ?i"
    using ne by (simp add: l(4) last_conv_nth)
  moreover have "cur_c s = valueCounts s ! ?i"
    using l(1) len by (simp add: l(5) last_conv_nth)
  moreover have "xctObjs s (xcts s ! ?i) k = Some (Some v) \<longrightarrow>
      countObjs s (valueCounts s ! ?i) v \<noteq> None"
    using ok i unfolding layers_ok_def by blast
  ultimately show ?thesis
    using v by (auto simp: cur_xct_def cur_count_def)
qed

text \<open>
  Claim C9. In every reachable state with at least one layer, \<open>UNSET k\<close> raises
  \<open>KeyError\<close> when \<open>k\<close> is not a key of the current key-to-value dictionary. When \<open>k\<close> is a
  key, \<open>UNSET k\<close> returns normally and maps \<open>k\<close> to \<open>None\<close>; the count of the previous
  value is decremented by one when that value was a string, and the counts are unchanged
  when it was \<open>None\<close> already.
\<close>

theorem unset_faults_or_decrements:
  assumes r: "reachable s" and ne: "xcts s \<noteq> []"
  shows "(cur_xct s k = None \<longrightarrow> performInstruc [UNSET, k] s = Inl KeyError) \<and>
    (cur_xct s k = Some None \<longrightarrow>
       (\<exists>s'. performInstruc [UNSET, k] s = Inr s' \<and> xcts s' = xcts s \<and>
          valueCounts s' = valueCounts s \<and> inTransac s' = inTransac s \<and>
          cur_xct s' = (cur_xct s)(k \<mapsto> None) \<and> cur_count s' = cur_count s)) \<and>
    (\<forall>v. cur_xct s k = Some (Some v) \<longrightarrow>
       (\<exists>s' n. performInstruc [UNSET, k] s = Inr s' \<and> xcts s' = xcts s \<and>
          valueCounts s' = valueCounts s \<and> inTransac s' = inTransac s \<and>
          cur_count s v = Some n \<and>
          cur_xct s' = (cur_xct s)(k \<mapsto> None) \<and> cur_count s' = (cur_count s)(v \<mapsto> n - 1)))"
proof -
  note ok = reachable_layers_ok [OF r]
  note l = layers_ok_last [OF ok ne]
  let ?t = "s\<lparr>currXct := cur_x s, currValCount := cur_c s\<rparr>"
  have p: "performInstruc [UNSET, k] s = unset k ?t"
    by (rule perform_UNSET_eq [OF ne l(1)])
  have a: "performInstruc [UNSET, k] s = Inl KeyError" if "cur_xct s k = None"
    using that by (simp add: p unset_None cur_xct_def)
  have b: "\<exists>s'. performInstruc [UNSET, k] s = Inr s' \<and> xcts s' = xcts s \<and>
          valueCounts s' = valueCounts s \<and> inTransac s' = inTransac s \<and>
          cur_xct s' = (cur_xct s)(k \<mapsto> None) \<and> cur_count s' = cur_count s"
    if "cur_xct s k = Some None"
    using that
    by (simp add: p unset_Some_None cur_xct_def cur_count_def cur_x_def cur_c_def xct_store_def)
  have c: "\<exists>s' n. performInstruc [UNSET, k] s = Inr s' \<and> xcts s' = xcts s \<and>
          valueCounts s' = valueCounts s \<and> inTransac s' = inTransac s \<and>
          cur_count s v = Some n \<and>
          cur_xct s' = (cur_xct s)(k \<mapsto> None) \<and> cur_count s' = (cur_count s)(v \<mapsto> n - 1)"
    if v: "cur_xct s k = Some (Some v)" for v
  proof -
    from layers_ok_cur [OF ok ne v] obtain n where n: "cur_count s v = Some n" ..
    have "unset k ?t = Inr (count_store (cur_c s) v (n - 1) (xct_store (cur_x s) k None ?t))"
      using unset_Some_Some [of ?t k v n] v n by (simp add: cur_xct_def cur_count_def)
    then show ?thesis
      using n
      by (simp add: p cur_xct_def cur_count_def cur_x_def cur_c_def xct_store_def count_store_def)
  qed
  from a b c show ?thesis by blast
qed

theorem unset_faults_or_decrements_witness:
  "performInstruc [UNSET, ''a''] DB_init = Inl KeyError \<and>
   (\<exists>s s'. performInstruc [SET, ''a'', ''10''] DB_init = Inr s \<and>
      performInstruc [UNSET, ''a''] s = Inr s' \<and>
      cur_xct s' ''a'' = Some None \<and> cur_count s ''10'' = Some 1 \<and> cur_count s' ''10'' = Some 0 \<and>
      (\<exists>s''. performInstruc [UNSET, ''a''] s' = Inr s'' \<and> cur_count s'' = cur_count s'))"
proof -
  have i: "xcts DB_init \<noteq> []" "cur_xct DB_init ''a'' = None"
    by (simp_all add: DB_init_def cur_xct_def cur_x_def)
  have 1: "performInstruc [UNSET, ''a''] DB_init = Inl KeyError"
    using unset_faults_or_decrements [OF reachable.init i(1), of "''a''"] i(2) by simp
  obtain s where s: "performInstruc [SET, ''a'', ''10''] DB_init = Inr s" "xcts s \<noteq> []"
    "cur_xct s ''a'' = Some (Some ''10'')" "cur_count s ''10'' = Some 1"
    by (simp add: db_defs DB_init_def Let_def cur_xct_def cur_x_def cur_count_def cur_c_def)
  have rs: "reachable s"
    using reachable.init s(1) by (rule reachable.step)
  from unset_faults_or_decrements [OF rs s(2), of "''a''"] s(3,4)
  obtain s' where s': "performInstruc [UNSET, ''a''] s = Inr s'" "xcts s' = xcts s"
    "cur_xct s' = (cur_xct s)(''a'' \<mapsto> None)" "cur_count s' = (cur_count s)(''10'' \<mapsto> 0)"
    by auto
  have rs': "reachable s'"
    using rs s'(1) by (rule reachable.step)
  have "cur_xct s' ''a'' = Some None" by (simp add: s'(3))
  with unset_faults_or_decrements [OF rs', of "''a''"] s(2) s'(2)
  obtain s'' where "performInstruc [UNSET, ''a''] s' = Inr s''" "cur_count s'' = cur_count s'"
    by auto
  with 1 s s' show ?thesis by auto
qed

subsection \<open>Set with the value the key already has\<close>

lemma set_db_same_value:
  assumes "xctObjs s (currXct s) k = Some (Some v)" "countObjs s (currValCount s) v = Some n"
  shows "countObjs (set_db k v s) (currValCount s) v = Some (n + 1)"
    "xctObjs (set_db k v s) (currXct s) = xctObjs s (currXct s)"
  using assms
  by (auto simp: set_db_def Let_def xct_store_def count_store_def)

lemmas line_defs = performCommand_def strip_def py_space_def

text \<open>
  Claim C10. In every reachable state with at least one layer, \<open>SET k v\<close> run when the
  current key-to-value dictionary already maps \<open>k\<close> to \<open>v\<close> leaves that dictionary as it is
  and adds one to the count of \<open>v\<close>. So the input lines \<open>SET a 10\<close>, \<open>SET a 10\<close>,
  \<open>NUMEQUALTO 10\<close> given to a new store make it write \<open>2\<close>, while \<open>a\<close> is the only key of
  the current dictionary.
\<close>

theorem set_same_value_increments:
  assumes r: "reachable s" and ne: "xcts s \<noteq> []" and v: "cur_xct s k = Some (Some v)"
  shows "(\<exists>s' n. performInstruc [SET, k, v] s = Inr s' \<and> cur_count s v = Some n \<and>
            cur_count s' v = Some (n + 1) \<and> cur_xct s' = cur_xct s) \<and>
         (\<exists>t. main_loop [''SET a 10'' @ nl, ''SET a 10'' @ nl, ''NUMEQUALTO 10'' @ nl] DB_init
                 = Inr t \<and>
            stdout t = ''2'' @ nl \<and> cur_xct t = [''a'' \<mapsto> Some ''10''])"
proof -
  note ok = reachable_layers_ok [OF r]
  note l = layers_ok_last [OF ok ne]
  from layers_ok_cur [OF ok ne v] obtain n where n: "cur_count s v = Some n" ..
  let ?t = "s\<lparr>currXct := cur_x s, currValCount := cur_c s\<rparr>"
  have p: "performInstruc [SET, k, v] s = Inr (set_db k v ?t)"
    using ne l(1) by (simp add: performInstruc_def select_current_cur)
  have t: "xctObjs ?t (currXct ?t) k = Some (Some v)" "countObjs ?t (currValCount ?t) v = Some n"
    using v n by (simp_all add: cur_xct_def cur_count_def)
  have cx: "cur_x (set_db k v ?t) = cur_x s" "cur_c (set_db k v ?t) = cur_c s"
    by (simp_all add: cur_x_def cur_c_def set_db_frame)
  have "cur_count (set_db k v ?t) v = Some (n + 1)"
    using set_db_same_value(1) [OF t] by (simp add: cur_count_def cx)
  moreover have "cur_xct (set_db k v ?t) = cur_xct s"
    using set_db_same_value(2) [OF t] by (simp add: cur_xct_def cx)
  ultimately have 1: "\<exists>s' n. performInstruc [SET, k, v] s = Inr s' \<and> cur_count s v = Some n \<and>
            cur_count s' v = Some (n + 1) \<and> cur_xct s' = cur_xct s"
    using p n by simp
  have 2: "\<exists>t. main_loop [''SET a 10'' @ nl, ''SET a 10'' @ nl, ''NUMEQUALTO 10'' @ nl] DB_init
                 = Inr t \<and>
            stdout t = ''2'' @ nl \<and> cur_xct t = [''a'' \<mapsto> Some ''10'']"
    by (simp add: line_defs db_defs DB_init_def Let_def str_int_def str_nat.simps
        cur_xct_def cur_x_def)
  from 1 2 show ?thesis ..
qed

theorem set_same_value_increments_witness:
  "\<exists>s s'. performInstruc [SET, ''a'', ''10''] DB_init = Inr s \<and>
      performInstruc [SET, ''a'', ''10''] s = Inr s' \<and>
      cur_count s ''10'' = Some 1 \<and> cur_count s' ''10'' = Some 2 \<and> cur_xct s' = cur_xct s"
proof -
  obtain s where s: "performInstruc [SET, ''a'', ''10''] DB_init = Inr s" "xcts s \<noteq> []"
    "cur_xct s ''a'' = Some (Some ''10'')" "cur_count s ''10'' = Some 1"
    by (simp add: db_defs DB_init_def Let_def cur_xct_def cur_x_def cur_count_def cur_c_def)
  have rs: "reachable s"
    using reachable.init s(1) by (rule reachable.step)
  from set_same_value_increments [OF rs s(2,3)] s show ?thesis
    by auto
qed

subsection \<open>Rollback and commit outside a transaction\<close>

lemma no_transaction_step:
  assumes nt: "\<not> inTransac s" and ne: "xcts s \<noteq> []" "valueCounts s \<noteq> []"
    and c: "c = [ROLLBACK] \<or> c = [COMMIT]"
  shows "\<exists>s'. performInstruc c s = Inr s' \<and>
     stdout s' = stdout s @ ''NO TRANSACTION'' @ nl \<and>
     xcts s' = xcts s \<and> valueCounts s' = valueCounts s \<and> inTransac s' = inTransac s \<and>
     xctObjs s' = xctObjs s \<and> countObjs s' = countObjs s \<and>
     xctNext s' = xctNext s \<and> countNext s' = countNext s"
  using c
proof
  assume "c = [ROLLBACK]"
  then show ?thesis using perform_ROLLBACK_out [OF nt ne] by metis
next
  assume "c = [COMMIT]"
  then show ?thesis using perform_COMMIT_out [OF nt ne] by metis
qed

text \<open>
  Claim C4. In a state outside a transaction whose stacks hold a layer, every \<open>ROLLBACK\<close>
  and every \<open>COMMIT\<close> returns normally and writes \<open>NO TRANSACTION\<close>; after any number of
  them, in any order, the two stacks, the transaction flag and every dictionary are what
  they were, and the output has grown by one \<open>NO TRANSACTION\<close> line for each command.
  Lemma \<open>no_BEGIN_from_init\<close> below shows that a store that has run no \<open>BEGIN\<close> is in such
  a state.
\<close>

theorem no_transaction_is_reported:
  assumes "\<not> inTransac s" and "xcts s \<noteq> []" and "valueCounts s \<noteq> []"
    and "\<forall>c\<in>set cmds. c = [ROLLBACK] \<or> c = [COMMIT]"
  shows "\<exists>s'. performAll cmds s = Inr s' \<and>
     stdout s' = stdout s @ concat (map (\<lambda>c. ''NO TRANSACTION'' @ nl) cmds) \<and>
     xcts s' = xcts s \<and> valueCounts s' = valueCounts s \<and> inTransac s' = inTransac s \<and>
     xctObjs s' = xctObjs s \<and> countObjs s' = countObjs s \<and>
     xctNext s' = xctNext s \<and> countNext s' = countNext s"
  using assms
proof (induction cmds arbitrary: s)
  case Nil
  then show ?case by simp
next
  case (Cons c cmds)
  have c: "c = [ROLLBACK] \<or> c = [COMMIT]"
    using Cons.prems(4) by simp
  from no_transaction_step [OF Cons.prems(1-3) c]
  obtain u where u: "performInstruc c s = Inr u"
    "stdout u = stdout s @ ''NO TRANSACTION'' @ nl"
    "xcts u = xcts s" "valueCounts u = valueCounts s" "inTransac u = inTransac s"
    "xctObjs u = xctObjs s" "countObjs u = countObjs s"
    "xctNext u = xctNext s" "countNext u = countNext s"
    by blast
  have "\<exists>s'. performAll cmds u = Inr s' \<and>
     stdout s' = stdout u @ concat (map (\<lambda>c. ''NO TRANSACTION'' @ nl) cmds) \<and>
     xcts s' = xcts u \<and> valueCounts s' = valueCounts u \<and> inTransac s' = inTransac u \<and>
     xctObjs s' = xctObjs u \<and> countObjs s' = countObjs u \<and>
     xctNext s' = xctNext u \<and> countNext s' = countNext u"
    using Cons.prems by (intro Cons.IH) (simp_all add: u)
  then show ?case
    by (simp add: u)
qed

theorem no_transaction_is_reported_witness:
  "\<exists>s'. performAll [[ROLLBACK], [COMMIT], [ROLLBACK]] DB_init = Inr s' \<and>
     stdout s' = ''NO TRANSACTION'' @ nl @ ''NO TRANSACTION'' @ nl @ ''NO TRANSACTION'' @ nl \<and>
     xcts s' = [0] \<and> valueCounts s' = [0] \<and> \<not> inTransac s'"
proof -
  have h: "\<not> inTransac DB_init" "xcts DB_init \<noteq> []" "valueCounts DB_init \<noteq> []"
    by (simp_all add: DB_init_def)
  have c: "\<forall>c\<in>set [[ROLLBACK], [COMMIT], [ROLLBACK]]. c = [ROLLBACK] \<or> c = [COMMIT]"
    by simp
  from no_transaction_is_reported [OF h c]
  obtain s' where s': "performAll [[ROLLBACK], [COMMIT], [ROLLBACK]] DB_init = Inr s'"
    "stdout s' = stdout DB_init @
       concat (map (\<lambda>c. ''NO TRANSACTION'' @ nl) [[ROLLBACK], [COMMIT], [ROLLBACK]])"
    "xcts s' = xcts DB_init" "valueCounts s' = valueCounts DB_init"
    "inTransac s' = inTransac DB_init"
    by blast
  have "stdout s' = ''NO TRANSACTION'' @ nl @ ''NO TRANSACTION'' @ nl @ ''NO TRANSACTION'' @ nl"
    "xcts s' = [0]" "valueCounts s' = [0]" "\<not> inTransac s'"
    by (simp_all add: s'(2-5) DB_init_def)
  with s'(1) show ?thesis by blast
qed

text \<open>A store that has run no \<open>BEGIN\<close> is in such a state.\<close>

lemma no_BEGIN_step:
  assumes "performInstruc c s = Inr s'" "take 1 c \<noteq> [BEGIN]" "\<not> inTransac s"
  shows "\<not> inTransac s' \<and> xcts s' = xcts s \<and> valueCounts s' = valueCounts s"
proof -
  from assms(1) obtain s1 where s1: "select_current s = Inr s1"
    by (auto simp: performInstruc_def split: list.splits sum.splits)
  from select_current_Inr [OF s1] have f: "inTransac s1 = inTransac s" "xcts s1 = xcts s"
    "valueCounts s1 = valueCounts s"
    by auto
  show ?thesis
    using assms f unset_Inr_fields(1,2,5) [of _ s1 s']
    by (auto simp: performInstruc_def s1 set_db_frame get_def numEqualTo_def stdout_write_def
        rollback_def commit_def end_db_def Let_def split: list.splits if_splits option.splits)
qed

lemma no_BEGIN_no_transaction:
  assumes "performAll pre s = Inr s'" "\<forall>c\<in>set pre. take 1 c \<noteq> [BEGIN]" "\<not> inTransac s"
  shows "\<not> inTransac s' \<and> xcts s' = xcts s \<and> valueCounts s' = valueCounts s"
  using assms
proof (induction pre arbitrary: s)
  case Nil
  then show ?case by simp
next
  case (Cons c pre)
  from Cons.prems(1) obtain u where u: "performInstruc c s = Inr u" "performAll pre u = Inr s'"
    by (auto split: sum.splits)
  from no_BEGIN_step [OF u(1) _ Cons.prems(3)] Cons.prems(2)
  have f: "\<not> inTransac u" "xcts u = xcts s" "valueCounts u = valueCounts s"
    by simp_all
  from Cons.IH [OF u(2) _ f(1)] Cons.prems(2) f show ?case
    by simp
qed

lemma no_BEGIN_from_init:
  assumes "performAll pre DB_init = Inr s" "\<forall>c\<in>set pre. take 1 c \<noteq> [BEGIN]"
  shows "\<not> inTransac s \<and> xcts s \<noteq> [] \<and> valueCounts s \<noteq> []"
  using no_BEGIN_no_transaction [OF assms] by (simp add: DB_init_def)

subsection \<open>Get\<close>

text \<open>
  Claim C8. \<open>get(k)\<close> writes the string that the current key-to-value dictionary holds for
  \<open>k\<close>, and writes \<open>NULL\<close> when \<open>k\<close> is mapped to \<open>None\<close> or is not a key; the state it
  returns is the state it was given with only the output extended. The \<open>GET\<close> command,
  run in a state whose stacks hold a layer, reads the dictionary of the current layer
  and leaves the stacks, the flag and all dictionaries unchanged.
\<close>

theorem get_reads_current_value:
  "(\<forall>v. xctObjs s (currXct s) k = Some (Some v) \<longrightarrow>
      get k s = s\<lparr>stdout := stdout s @ v @ nl\<rparr>) \<and>
   (xctObjs s (currXct s) k = Some None \<longrightarrow> get k s = s\<lparr>stdout := stdout s @ ''NULL'' @ nl\<rparr>) \<and>
   (xctObjs s (currXct s) k = None \<longrightarrow> get k s = s\<lparr>stdout := stdout s @ ''NULL'' @ nl\<rparr>) \<and>
   (xcts s \<noteq> [] \<and> valueCounts s \<noteq> [] \<longrightarrow>
      (\<exists>s'. performInstruc [GET, k] s = Inr s' \<and>
         stdout s' =
           stdout s @ (case cur_xct s k of Some (Some v) \<Rightarrow> v | _ \<Rightarrow> ''NULL'') @ nl \<and>
         xctObjs s' = xctObjs s \<and> countObjs s' = countObjs s \<and> xcts s' = xcts s \<and>
         valueCounts s' = valueCounts s \<and> inTransac s' = inTransac s \<and>
         xctNext s' = xctNext s \<and> countNext s' = countNext s))"
proof -
  have "\<exists>s'. performInstruc [GET, k] s = Inr s' \<and>
         stdout s' =
           stdout s @ (case cur_xct s k of Some (Some v) \<Rightarrow> v | _ \<Rightarrow> ''NULL'') @ nl \<and>
         xctObjs s' = xctObjs s \<and> countObjs s' = countObjs s \<and> xcts s' = xcts s \<and>
         valueCounts s' = valueCounts s \<and> inTransac s' = inTransac s \<and>
         xctNext s' = xctNext s \<and> countNext s' = countNext s"
    if "xcts s \<noteq> []" "valueCounts s \<noteq> []"
    using perform_GET [OF that, of k] unfolding cur_xct_def by metis
  then show ?thesis
    by (simp add: get_def stdout_write_def)
qed

theorem get_reads_current_value_witness:
  "get ''a'' (set_db ''a'' ''10'' DB_init) =
     (set_db ''a'' ''10'' DB_init)\<lparr>stdout := ''10'' @ nl\<rparr> \<and>
   get ''a'' DB_init = DB_init\<lparr>stdout := ''NULL'' @ nl\<rparr> \<and>
   (\<exists>s s'. unset ''a'' (set_db ''a'' ''10'' DB_init) = Inr s \<and>
      get ''a'' s = s\<lparr>stdout := ''NULL'' @ nl\<rparr> \<and>
      performInstruc [GET, ''a''] DB_init = Inr s' \<and> stdout s' = ''NULL'' @ nl)"
proof -
  let ?s = "set_db ''a'' ''10'' DB_init"
  have 1: "xctObjs ?s (currXct ?s) ''a'' = Some (Some ''10'')" "stdout ?s = []"
    by (simp_all add: set_db_frame DB_init_def)
  have 2: "xctObjs DB_init (currXct DB_init) ''a'' = None" "stdout DB_init = []"
    "xcts DB_init \<noteq> []" "valueCounts DB_init \<noteq> []" "cur_xct DB_init ''a'' = None"
    by (simp_all add: DB_init_def cur_xct_def cur_x_def)
  obtain s where s: "unset ''a'' ?s = Inr s" "xctObjs s (currXct s) ''a'' = Some None"
    "stdout s = []"
    by (simp add: db_defs DB_init_def Let_def)
  from get_reads_current_value [of ?s "''a''"] get_reads_current_value [of DB_init "''a''"]
    get_reads_current_value [of s "''a''"] 1 2 s
  show ?thesis by auto
qed

subsection \<open>Where the code departs from its documentation\<close>

text \<open>
  Claim C1 (count invariant) does not hold of the code: \<open>set\<close> adds one to the count of the
  new value also when the key already has that value. The input lines \<open>SET a 10\<close>,
  \<open>SET a 10\<close>, \<open>NUMEQUALTO 10\<close> given to a new store make it write \<open>2\<close>, while exactly one
  key of the current dictionary holds \<open>10\<close>.
\<close>

theorem numEqualTo_overcounts:
  "\<exists>s. main_loop [''SET a 10'' @ nl, ''SET a 10'' @ nl, ''NUMEQUALTO 10'' @ nl] DB_init = Inr s \<and>
     stdout s = ''2'' @ nl \<and> cur_count s ''10'' = Some 2 \<and>
     card {k. cur_xct s k = Some (Some ''10'')} = 1"
proof -
  obtain s where s:
    "main_loop [''SET a 10'' @ nl, ''SET a 10'' @ nl, ''NUMEQUALTO 10'' @ nl] DB_init = Inr s"
    "stdout s = ''2'' @ nl" "cur_count s ''10'' = Some 2" "cur_xct s = [''a'' \<mapsto> Some ''10'']"
    by (simp add: line_defs db_defs DB_init_def Let_def str_int_def str_nat.simps
        cur_xct_def cur_x_def cur_count_def cur_c_def)
  have "{k. cur_xct s k = Some (Some ''10'')} = {''a''}"
    by (auto simp: s(4) split: if_splits)
  then have "card {k. cur_xct s k = Some (Some ''10'')} = 1"
    by simp
  with s(1-3) show ?thesis by blast
qed

text \<open>
  Claim C2 (stack length at least one, and one exactly outside a transaction) does not hold
  of the code: \<open>rollback\<close> resets the flag only when the stack has become empty. After
  \<open>BEGIN; ROLLBACK\<close> the stack has one layer and the flag is still set; after
  \<open>BEGIN; ROLLBACK; ROLLBACK\<close> both stacks are empty.
\<close>

theorem rollback_breaks_stack_invariant:
  "\<exists>s t. main_loop [''BEGIN'' @ nl, ''ROLLBACK'' @ nl] DB_init = Inr s \<and>
     length (xcts s) = 1 \<and> inTransac s \<and>
     main_loop [''BEGIN'' @ nl, ''ROLLBACK'' @ nl, ''ROLLBACK'' @ nl] DB_init = Inr t \<and>
     length (xcts t) = 0 \<and> length (valueCounts t) = 0 \<and> \<not> inTransac t"
  by (simp add: line_defs db_defs DB_init_def Let_def)

text \<open>
  Claim C3 (the second \<open>ROLLBACK\<close> of \<open>BEGIN; ROLLBACK; ROLLBACK\<close> writes \<open>NO TRANSACTION\<close>)
  does not hold of the code: the three lines write nothing and leave both stacks empty, so
  that the next command raises \<open>IndexError\<close>; and \<open>COMMIT\<close> after \<open>BEGIN; ROLLBACK\<close> writes
  nothing either and replaces the committed layer by a copy.
\<close>

theorem second_rollback_pops_base:
  "\<exists>s u. main_loop [''BEGIN'' @ nl, ''ROLLBACK'' @ nl, ''ROLLBACK'' @ nl] DB_init = Inr s \<and>
     stdout s = [] \<and> xcts s = [] \<and> valueCounts s = [] \<and>
     performCommand (''ROLLBACK'' @ nl) s = Inl IndexError \<and>
     performCommand (''GET a'' @ nl) s = Inl IndexError \<and>
     main_loop [''BEGIN'' @ nl, ''ROLLBACK'' @ nl, ''COMMIT'' @ nl] DB_init = Inr u \<and>
     stdout u = [] \<and> xcts u = [3] \<and> valueCounts u = [3]"
  by (simp add: line_defs db_defs DB_init_def Let_def)

end
